theory Spec2Isabelle
  imports Complex_Main
begin

section \<open>Python values, exceptions and effects\<close>

text \<open>
  \<^verbatim>\<open>merge_benchmarks.py\<close> works on whatever \<^verbatim>\<open>json.load\<close> returns. A parsed document
  is a value of \<open>json\<close>: \<^verbatim>\<open>None\<close>, a \<^verbatim>\<open>bool\<close>, an unbounded \<^verbatim>\<open>int\<close>, a \<^verbatim>\<open>float\<close>, a
  \<^verbatim>\<open>str\<close>, a \<^verbatim>\<open>list\<close> or a \<^verbatim>\<open>dict\<close> with string keys. The pairs of a \<open>JObject\<close> are the
  items of the dict in insertion order, with distinct keys. A finite float is kept as the rational number it
  denotes (Python compares and hashes numbers by their exact value); the three other floats
  are constructors of their own. A \<open>char\<close> of a \<open>string\<close> stands for one character of the
  \<^verbatim>\<open>str\<close>.
\<close>

datatype pyfloat = Finite rat | PosInf | NegInf | NaN

datatype json =
    JNull
  | JBool bool
  | JInt int
  | JFloat pyfloat
  | JStr string
  | JArray "json list"
  | JObject "(string \<times> json) list"

text \<open>
  The exceptions of the program, all of them instances of \<^verbatim>\<open>Exception\<close>. The first three
  are raised by the operations on values below, the others come from \<^verbatim>\<open>open\<close>,
  \<^verbatim>\<open>json.load\<close> and \<^verbatim>\<open>json.dump\<close>, with the text of their message.
  Asynchronous interrupts (\<^verbatim>\<open>KeyboardInterrupt\<close>, \<^verbatim>\<open>SystemExit\<close>) are not modelled.
\<close>

datatype py_exception =
    KeyError string
  | TypeError
  | AttributeError
  | FileNotFoundError string
  | PermissionError string
  | OSError string
  | UnicodeDecodeError string
  | JSONDecodeError string

text \<open>
  What a run does to the outside, in order: one constructor for each \<^verbatim>\<open>print\<close> call of
  the source, carrying the values its f-string formats, and one for the file written by
  \<^verbatim>\<open>json.dump\<close>.
\<close>

datatype effect =
    ErrorLoading string py_exception
  | LoadedBenchmarks
  | CurrentCount nat
  | NewBenchCount nat
  | NewBench1Count nat
  | SkippedDuplicate json
  | MergedDataset nat
  | CategoryDistribution
  | CategoryCount json nat
  | FileWritten string json
  | MergedFileSaved string
  | TotalUnique nat

text \<open>
  A computation yields the effects it had and then either the exception it raised or the
  value it returned. An exception that is raised keeps the effects that came before it.
\<close>

type_synonym 'a result = "effect list \<times> (py_exception + 'a)"

definition py_return :: "'a \<Rightarrow> 'a result" where
  "py_return x = ([], Inr x)"

definition py_raise :: "py_exception \<Rightarrow> 'a result" where
  "py_raise e = ([], Inl e)"

definition py_eval :: "py_exception + 'a \<Rightarrow> 'a result" where
  "py_eval v = ([], v)"

definition py_print :: "effect \<Rightarrow> unit result" where
  "py_print l = ([l], Inr ())"

definition py_bind :: "'a result \<Rightarrow> ('a \<Rightarrow> 'b result) \<Rightarrow> 'b result" where
  "py_bind m f =
     (case m of
        (out, Inl e) \<Rightarrow> (out, Inl e)
      | (out, Inr x) \<Rightarrow> (case f x of (out', r) \<Rightarrow> (out @ out', r)))"

fun print_all :: "effect list \<Rightarrow> unit result" where
  "print_all [] = py_return ()"
| "print_all (l # ls) = py_bind (py_print l) (\<lambda>_. print_all ls)"

subsection \<open>Operations on values\<close>

text \<open>\<^verbatim>\<open>b[k]\<close> for a string \<open>k\<close>: only a dict can be subscripted by a string.\<close>

fun getitem :: "json \<Rightarrow> string \<Rightarrow> py_exception + json" where
  "getitem (JObject kvs) k = (case map_of kvs k of None \<Rightarrow> Inl (KeyError k) | Some v \<Rightarrow> Inr v)"
| "getitem _ k = Inl TypeError"

text \<open>\<^verbatim>\<open>b.get(k, d)\<close>: only a dict has the method.\<close>

fun dict_get :: "json \<Rightarrow> string \<Rightarrow> json \<Rightarrow> py_exception + json" where
  "dict_get (JObject kvs) k d = Inr (case map_of kvs k of None \<Rightarrow> d | Some v \<Rightarrow> v)"
| "dict_get _ k d = Inl AttributeError"

text \<open>
  Membership in a set and lookup in a dict hash the value and compare with \<^verbatim>\<open>==\<close>. Two
  hashable values are equal in Python exactly when they have the same \<open>pykey\<close>:
  \<^verbatim>\<open>True == 1 == 1.0\<close>, and a list or a dict cannot be hashed.
\<close>

datatype pykey = KNone | KNum rat | KPosInf | KNegInf | KNaN | KStr string

fun py_key :: "json \<Rightarrow> py_exception + pykey" where
  "py_key JNull = Inr KNone"
| "py_key (JBool b) = Inr (KNum (if b then 1 else 0))"
| "py_key (JInt i) = Inr (KNum (of_int i))"
| "py_key (JFloat (Finite q)) = Inr (KNum q)"
| "py_key (JFloat PosInf) = Inr KPosInf"
| "py_key (JFloat NegInf) = Inr KNegInf"
| "py_key (JFloat NaN) = Inr KNaN"
| "py_key (JStr s) = Inr (KStr s)"
| "py_key (JArray xs) = Inl TypeError"
| "py_key (JObject kvs) = Inl TypeError"

text \<open>
  What iterating over a value yields: the elements of a list, the keys of a dict, the
  characters of a string. \<^verbatim>\<open>len\<close> is defined for the same values and counts them.
\<close>

fun py_iter :: "json \<Rightarrow> py_exception + json list" where
  "py_iter (JArray xs) = Inr xs"
| "py_iter (JObject kvs) = Inr (map (\<lambda>kv. JStr (fst kv)) kvs)"
| "py_iter (JStr s) = Inr (map (\<lambda>c. JStr [c]) s)"
| "py_iter _ = Inl TypeError"

definition py_len :: "json \<Rightarrow> py_exception + nat" where
  "py_len v = (case py_iter v of Inl e \<Rightarrow> Inl e | Inr xs \<Rightarrow> Inr (length xs))"

section \<open>The loader\<close>

text \<open>
  The library calls of the program are parameters of the model: \<open>open_read\<close> is
  \<^verbatim>\<open>open(filename, 'r', encoding='utf-8')\<close> followed by the read of the whole file,
  \<open>json_loads\<close> the parser behind \<^verbatim>\<open>json.load\<close>, \<open>py_sorted\<close> is \<^verbatim>\<open>sorted\<close> on the items of
  the category dict, and \<open>json_dump\<close> opens the output file for writing and dumps the
  document into it (\<^verbatim>\<open>indent=2, ensure_ascii=False\<close>).
\<close>

record world =
  open_read :: "string \<Rightarrow> py_exception + string"
  json_loads :: "string \<Rightarrow> py_exception + json"
  py_sorted :: "(json \<times> nat) list \<Rightarrow> py_exception + (json \<times> nat) list"
  json_dump :: "string \<Rightarrow> json \<Rightarrow> py_exception option"

text \<open>The body of the \<^verbatim>\<open>try\<close> block of \<^verbatim>\<open>load_json_file\<close>.\<close>

definition load_attempt :: "world \<Rightarrow> string \<Rightarrow> py_exception + json" where
  "load_attempt w filename =
     (case open_read w filename of
        Inl e \<Rightarrow> Inl e
      | Inr text \<Rightarrow> json_loads w text)"

text \<open>
  \<^verbatim>\<open>
  def load_json_file(filename):
      try:
          with open(filename, 'r', encoding='utf-8') as f:
              return json.load(f)
      except Exception as e:
          print(f"Error loading {filename}: {e}")
          return []
  \<close>
\<close>

definition load_json_file :: "world \<Rightarrow> string \<Rightarrow> json result" where
  "load_json_file w filename =
     (case load_attempt w filename of
        Inr doc \<Rightarrow> py_return doc
      | Inl e \<Rightarrow> py_bind (py_print (ErrorLoading filename e)) (\<lambda>_. py_return (JArray [])))"

section \<open>The merge\<close>

text \<open>\<^verbatim>\<open>benchmark['id']\<close> as a member of a set: the value and its hash key.\<close>

definition id_key :: "json \<Rightarrow> py_exception + pykey" where
  "id_key b = (case getitem b ''id'' of Inl e \<Rightarrow> Inl e | Inr v \<Rightarrow> py_key v)"

text \<open>\<^verbatim>\<open>existing_ids = {b['id'] for b in all_benchmarks}\<close>\<close>

fun id_set :: "json list \<Rightarrow> py_exception + pykey set" where
  "id_set [] = Inr {}"
| "id_set (b # bs) =
     (case id_key b of
        Inl e \<Rightarrow> Inl e
      | Inr k \<Rightarrow> (case id_set bs of Inl e \<Rightarrow> Inl e | Inr ids \<Rightarrow> Inr (insert k ids)))"

text \<open>
  The two loops of the source are the same text but for the list they run over:
  \<^verbatim>\<open>
  for benchmark in new_bench:
      if benchmark['id'] not in existing_ids:
          all_benchmarks.append(benchmark)
          existing_ids.add(benchmark['id'])
      else:
          print(f"  - Skipped duplicate ID: {benchmark['id']}")
  \<close>
  The state of the loop is the pair of \<^verbatim>\<open>all_benchmarks\<close> and \<^verbatim>\<open>existing_ids\<close>.
\<close>

fun add_benchmarks :: "json list \<Rightarrow> json list \<times> pykey set \<Rightarrow> (json list \<times> pykey set) result" where
  "add_benchmarks [] (all_benchmarks, existing_ids) = py_return (all_benchmarks, existing_ids)"
| "add_benchmarks (benchmark # rest) (all_benchmarks, existing_ids) =
     (case getitem benchmark ''id'' of
        Inl e \<Rightarrow> py_raise e
      | Inr v \<Rightarrow>
          (case py_key v of
             Inl e \<Rightarrow> py_raise e
           | Inr k \<Rightarrow>
               if k \<notin> existing_ids
               then add_benchmarks rest (all_benchmarks @ [benchmark], insert k existing_ids)
               else py_bind (py_print (SkippedDuplicate v))
                      (\<lambda>_. add_benchmarks rest (all_benchmarks, existing_ids))))"

text \<open>
  Lines 28 to 48 of the source, on the three loaded collections: the result list starts
  as \<^verbatim>\<open>current\<close>, the set of seen ids is built from it, and the two loops run. The value
  is the final \<^verbatim>\<open>all_benchmarks\<close> with the final \<^verbatim>\<open>existing_ids\<close>.
\<close>

definition merge_step :: "json list \<Rightarrow> json list \<Rightarrow> json list \<Rightarrow> (json list \<times> pykey set) result" where
  "merge_step current new_bench new_bench1 =
     (let all_benchmarks = [] @ current in
      py_bind (py_eval (id_set all_benchmarks)) (\<lambda>existing_ids.
      py_bind (add_benchmarks new_bench (all_benchmarks, existing_ids)) (\<lambda>s.
      add_benchmarks new_bench1 s)))"

section \<open>The category tally\<close>

text \<open>
  \<^verbatim>\<open>categories\<close> is a dict from categories to counts, kept as its items in insertion
  order. \<open>categories_get\<close> is \<^verbatim>\<open>categories.get(cat, d)\<close> and \<open>categories_set\<close> is
  \<^verbatim>\<open>categories[cat] = n\<close>, for a key \<open>cat\<close> whose hash key is \<open>k\<close>: an item with an equal key
  keeps its place and its key object.
\<close>

fun categories_get :: "(json \<times> nat) list \<Rightarrow> pykey \<Rightarrow> nat \<Rightarrow> nat" where
  "categories_get [] k d = d"
| "categories_get ((c, n) # items) k d =
     (if py_key c = Inr k then n else categories_get items k d)"

fun categories_set :: "(json \<times> nat) list \<Rightarrow> json \<Rightarrow> pykey \<Rightarrow> nat \<Rightarrow> (json \<times> nat) list" where
  "categories_set [] cat k n = [(cat, n)]"
| "categories_set ((c, m) # items) cat k n =
     (if py_key c = Inr k then (c, n) # items else (c, m) # categories_set items cat k n)"

text \<open>\<^verbatim>\<open>b.get('category', 'unknown')\<close> as a key of the dict.\<close>

definition category_key :: "json \<Rightarrow> py_exception + pykey" where
  "category_key b =
     (case dict_get b ''category'' (JStr ''unknown'') of Inl e \<Rightarrow> Inl e | Inr cat \<Rightarrow> py_key cat)"

text \<open>
  \<^verbatim>\<open>
  for b in all_benchmarks:
      cat = b.get('category', 'unknown')
      categories[cat] = categories.get(cat, 0) + 1
  \<close>
\<close>

fun count_categories :: "json list \<Rightarrow> (json \<times> nat) list \<Rightarrow> py_exception + (json \<times> nat) list" where
  "count_categories [] categories = Inr categories"
| "count_categories (b # rest) categories =
     (case dict_get b ''category'' (JStr ''unknown'') of
        Inl e \<Rightarrow> Inl e
      | Inr cat \<Rightarrow>
          (case py_key cat of
             Inl e \<Rightarrow> Inl e
           | Inr k \<Rightarrow>
               count_categories rest
                 (categories_set categories cat k (categories_get categories k 0 + 1))))"

section \<open>The whole run\<close>

definition output_file :: string where
  "output_file = ''data/benchmarks_merged.json''"

text \<open>
  \<^verbatim>\<open>
  with open(output_file, 'w', encoding='utf-8') as f:
      json.dump(all_benchmarks, f, indent=2, ensure_ascii=False)
  \<close>
\<close>

definition save_json :: "world \<Rightarrow> string \<Rightarrow> json \<Rightarrow> unit result" where
  "save_json w path doc =
     (case json_dump w path doc of
        Some e \<Rightarrow> py_raise e
      | None \<Rightarrow> ([FileWritten path doc], Inr ()))"

text \<open>
  Lines 50 to 70 of the source, on the merged list: the total, the tally and its sorted
  report, the file, the two closing lines, and the list as the value returned.
\<close>

definition report_and_save :: "world \<Rightarrow> json list \<Rightarrow> json list result" where
  "report_and_save w all_benchmarks =
     py_bind (py_print (MergedDataset (length all_benchmarks))) (\<lambda>_.
     py_bind (py_eval (count_categories all_benchmarks [])) (\<lambda>categories.
     py_bind (py_print CategoryDistribution) (\<lambda>_.
     py_bind (py_eval (py_sorted w categories)) (\<lambda>items.
     py_bind (print_all (map (\<lambda>item. CategoryCount (fst item) (snd item)) items)) (\<lambda>_.
     py_bind (save_json w output_file (JArray all_benchmarks)) (\<lambda>_.
     py_bind (py_print (MergedFileSaved output_file)) (\<lambda>_.
     py_bind (py_print (TotalUnique (length all_benchmarks))) (\<lambda>_.
     py_return all_benchmarks))))))))"

text \<open>
  Lines 22 to 25 of the source: the report of the sizes of the three loaded values. The
  value is what the three variables \<^verbatim>\<open>current\<close>, \<^verbatim>\<open>new_bench\<close> and \<^verbatim>\<open>new_bench1\<close> iterate over
  afterwards: a value that has a \<^verbatim>\<open>len\<close> can be iterated.
\<close>

definition report_loaded :: "json \<Rightarrow> json \<Rightarrow> json \<Rightarrow> (json list \<times> json list \<times> json list) result" where
  "report_loaded current new_bench new_bench1 =
     py_bind (py_print LoadedBenchmarks) (\<lambda>_.
     py_bind (py_eval (py_len current)) (\<lambda>n.
     py_bind (py_print (CurrentCount n)) (\<lambda>_.
     py_bind (py_eval (py_len new_bench)) (\<lambda>n.
     py_bind (py_print (NewBenchCount n)) (\<lambda>_.
     py_bind (py_eval (py_len new_bench1)) (\<lambda>n.
     py_bind (py_print (NewBench1Count n)) (\<lambda>_.
     py_bind (py_eval (py_iter current)) (\<lambda>current_items.
     py_bind (py_eval (py_iter new_bench)) (\<lambda>new_bench_items.
     py_bind (py_eval (py_iter new_bench1)) (\<lambda>new_bench1_items.
     py_return (current_items, new_bench_items, new_bench1_items)))))))))))"

text \<open>Lines 17 to 25 of the source: the three loads, then the report.\<close>

definition load_all :: "world \<Rightarrow> (json list \<times> json list \<times> json list) result" where
  "load_all w =
     py_bind (load_json_file w ''data/benchmarks.json'') (\<lambda>current.
     py_bind (load_json_file w ''data/new_bench.json'') (\<lambda>new_bench.
     py_bind (load_json_file w ''data/new_bench1.json'') (\<lambda>new_bench1.
     report_loaded current new_bench new_bench1)))"

text \<open>The function \<^verbatim>\<open>merge_benchmarks\<close>: load, merge, report and save.\<close>

definition merge_benchmarks :: "world \<Rightarrow> json list result" where
  "merge_benchmarks w =
     py_bind (load_all w) (\<lambda>(current, new_bench, new_bench1).
     py_bind (merge_step current new_bench new_bench1) (\<lambda>(all_benchmarks, existing_ids).
     report_and_save w all_benchmarks))"

section \<open>Notions the properties are stated with\<close>

text \<open>
  The records of \<open>xs\<close> whose id is the id of no record before them, where the records
  before a record of \<open>xs\<close> are those of \<open>earlier\<close> and the records of \<open>xs\<close> in front of it.
  \<open>duplicates\<close> are the other records of \<open>xs\<close>. Ids are compared as \<open>id_key\<close> gives them.
\<close>

fun non_duplicates :: "json list \<Rightarrow> json list \<Rightarrow> json list" where
  "non_duplicates earlier [] = []"
| "non_duplicates earlier (x # xs) =
     (if id_key x \<in> id_key ` set earlier then [] else [x]) @ non_duplicates (earlier @ [x]) xs"


text \<open>The records of a list that carry the id with hash key \<open>k\<close>, in order.\<close>

definition records_with_id :: "pykey \<Rightarrow> json list \<Rightarrow> json list" where
  "records_with_id k xs = filter (\<lambda>b. id_key b = Inr k) xs"


definition has_hashable_id :: "json \<Rightarrow> bool" where
  "has_hashable_id b = (case id_key b of Inl e \<Rightarrow> False | Inr k \<Rightarrow> True)"

text \<open>
  The exception of the first record of a list whose id cannot be read or hashed, and the
  records in front of that record (all of them when there is none).
\<close>

fun first_fault :: "json list \<Rightarrow> py_exception option" where
  "first_fault [] = None"
| "first_fault (b # bs) = (case id_key b of Inl e \<Rightarrow> Some e | Inr k \<Rightarrow> first_fault bs)"




text \<open>
  A record is in category \<open>k\<close> when its category field has the hash key \<open>k\<close>; a record with
  no category field is in the category of the string \<^verbatim>\<open>unknown\<close>.
\<close>

definition in_category :: "pykey \<Rightarrow> json \<Rightarrow> bool" where
  "in_category k b =
     (case getitem b ''category'' of
        Inr v \<Rightarrow> py_key v = Inr k
      | Inl e \<Rightarrow> k = KStr ''unknown'')"


definition run_merged :: "world \<Rightarrow> py_exception + json list" where
  "run_merged w =
     (case snd (load_all w) of
        Inl e \<Rightarrow> Inl e
      | Inr (current, new_bench, new_bench1) \<Rightarrow>
          (case snd (merge_step current new_bench new_bench1) of
             Inl e \<Rightarrow> Inl e
           | Inr (all_benchmarks, existing_ids) \<Rightarrow> Inr all_benchmarks))"

definition run_tally :: "world \<Rightarrow> py_exception + (json \<times> nat) list" where
  "run_tally w =
     (case run_merged w of
        Inl e \<Rightarrow> Inl e
      | Inr all_benchmarks \<Rightarrow> count_categories all_benchmarks [])"


section \<open>Example records\<close>

text \<open>A benchmark record with an integer id and a category, as in the examples of the design.\<close>

definition bench :: "int \<Rightarrow> string \<Rightarrow> json" where
  "bench i c = JObject [(''id'', JInt i), (''category'', JStr c)]"

definition ex_current :: "json list" where
  "ex_current = [bench 1 ''x'']"

definition ex_new_bench :: "json list" where
  "ex_new_bench = [bench 1 ''y'', bench 2 ''x'']"

definition ex_new_bench1 :: "json list" where
  "ex_new_bench1 = [bench 2 ''z'', bench 3 ''x'']"






section \<open>Laws of the computations\<close>

lemma py_bind_return: "py_bind (py_return x) f = f x"
  by (simp add: py_bind_def py_return_def split: prod.splits)

lemma py_bind_raise: "py_bind (py_raise e) f = py_raise e"
  by (simp add: py_bind_def py_raise_def)

lemma py_bind_eval_Inr: "py_bind (py_eval (Inr x)) f = f x"
  by (simp add: py_bind_def py_eval_def split: prod.splits)

lemma py_bind_eval_Inl: "py_bind (py_eval (Inl e)) f = py_raise e"
  by (simp add: py_bind_def py_eval_def py_raise_def)



lemma snd_py_bind:
  "snd (py_bind m f) = (case snd m of Inl e \<Rightarrow> Inl e | Inr x \<Rightarrow> snd (f x))"
  by (cases m) (simp add: py_bind_def split: sum.splits prod.splits)

lemma non_duplicates_cong:
  "id_key ` set e1 = id_key ` set e2 \<Longrightarrow> non_duplicates e1 xs = non_duplicates e2 xs"
proof (induction xs arbitrary: e1 e2)
  case Nil
  show ?case by simp
next
  case (Cons x xs)
  have "id_key ` set (e1 @ [x]) = id_key ` set (e2 @ [x])"
    using Cons.prems by auto
  then have "non_duplicates (e1 @ [x]) xs = non_duplicates (e2 @ [x]) xs"
    by (rule Cons.IH)
  then show ?case using Cons.prems by simp
qed


lemma first_fault_append:
  "first_fault (xs @ ys) = (case first_fault xs of Some e \<Rightarrow> Some e | None \<Rightarrow> first_fault ys)"
  by (induction xs) (auto split: sum.splits)

lemma first_fault_None: "first_fault xs = None \<longleftrightarrow> (\<forall>b\<in>set xs. has_hashable_id b)"
  by (induction xs) (auto simp: has_hashable_id_def split: sum.splits)


lemma id_set_eq:
  "id_set xs = (case first_fault xs of Some e \<Rightarrow> Inl e | None \<Rightarrow> Inr {k. Inr k \<in> id_key ` set xs})"
  by (induction xs) (auto split: sum.splits option.splits)

lemma add_benchmarks_snd:
  "Inr ` ids = id_key ` set all \<Longrightarrow>
   snd (add_benchmarks xs (all, ids)) =
     (case first_fault xs of
        Some e \<Rightarrow> Inl e
      | None \<Rightarrow> Inr (all @ non_duplicates all xs, ids \<union> {k. Inr k \<in> id_key ` set xs}))"
proof (induction xs arbitrary: all ids)
  case Nil
  show ?case by (simp add: py_return_def)
next
  case (Cons x xs)
  show ?case
  proof (cases "id_key x")
    case (Inl e)
    then show ?thesis
      by (auto simp: id_key_def py_raise_def split: sum.splits)
  next
    case (Inr k)
    then obtain v where v: "getitem x ''id'' = Inr v" "py_key v = Inr k"
      by (auto simp: id_key_def split: sum.splits)
    have ff: "first_fault (x # xs) = first_fault xs"
      using Inr by simp
    show ?thesis
    proof (cases "k \<in> ids")
      case True
      then have mem: "id_key x \<in> id_key ` set all"
        using Cons.prems Inr by (metis image_eqI)
      then have "id_key ` set (all @ [x]) = id_key ` set all" by auto
      then have "non_duplicates (all @ [x]) xs = non_duplicates all xs"
        by (rule non_duplicates_cong)
      then have nd: "non_duplicates all (x # xs) = non_duplicates all xs"
        using mem by simp
      have ks: "ids \<union> {k'. Inr k' \<in> id_key ` set (x # xs)} = ids \<union> {k'. Inr k' \<in> id_key ` set xs}"
        using True Inr by auto
      have step: "snd (add_benchmarks (x # xs) (all, ids)) = snd (add_benchmarks xs (all, ids))"
        using True v by (simp add: snd_py_bind py_print_def)
      show ?thesis
        unfolding step ff nd ks by (rule Cons.IH [OF Cons.prems])
    next
      case False
      then have nmem: "id_key x \<notin> id_key ` set all"
        using Cons.prems Inr by (metis image_iff sum.inject(2))
      have inv: "Inr ` insert k ids = id_key ` set (all @ [x])"
        using Cons.prems Inr by auto
      have nd: "all @ non_duplicates all (x # xs) = (all @ [x]) @ non_duplicates (all @ [x]) xs"
        using nmem by simp
      have ks: "ids \<union> {k'. Inr k' \<in> id_key ` set (x # xs)} = insert k ids \<union> {k'. Inr k' \<in> id_key ` set xs}"
        using Inr by auto
      have step: "snd (add_benchmarks (x # xs) (all, ids)) = snd (add_benchmarks xs (all @ [x], insert k ids))"
        using False v by simp
      show ?thesis
        unfolding step ff nd ks by (rule Cons.IH [OF inv])
    qed
  qed
qed



lemma ids_non_duplicates:
  "id_key ` set (e @ non_duplicates e xs) = id_key ` set (e @ xs)"
proof (induction xs arbitrary: e)
  case Nil
  show ?case by simp
next
  case (Cons x xs)
  have IH: "id_key ` set ((e @ [x]) @ non_duplicates (e @ [x]) xs) = id_key ` set ((e @ [x]) @ xs)"
    by (rule Cons.IH)
  show ?case
  proof (cases "id_key x \<in> id_key ` set e")
    case True
    then have "id_key ` set ((e @ [x]) @ ys) = id_key ` set (e @ ys)" for ys
      by (auto simp: image_Un)
    then have "id_key ` set (e @ non_duplicates (e @ [x]) xs) = id_key ` set ((e @ [x]) @ xs)"
      using IH by simp
    then show ?thesis using True by simp
  next
    case False
    then show ?thesis using IH by simp
  qed
qed

lemma keys_inv:
  assumes "first_fault xs = None"
  shows "Inr ` {k. Inr k \<in> id_key ` set xs} = id_key ` set xs"
proof -
  have ok: "\<exists>k. id_key b = Inr k" if "b \<in> set xs" for b
    using assms that by (cases "id_key b") (auto simp: first_fault_None has_hashable_id_def)
  show ?thesis
  proof (rule set_eqI)
    fix y
    show "y \<in> Inr ` {k. Inr k \<in> id_key ` set xs} \<longleftrightarrow> y \<in> id_key ` set xs"
    proof
      assume "y \<in> Inr ` {k. Inr k \<in> id_key ` set xs}"
      then show "y \<in> id_key ` set xs" by auto
    next
      assume "y \<in> id_key ` set xs"
      then obtain b where b: "b \<in> set xs" "y = id_key b" by auto
      obtain k where "id_key b = Inr k" using ok [OF b(1)] by blast
      then have "Inr k \<in> id_key ` set xs" "y = Inr k"
        using b by (metis image_eqI, simp)
      then show "y \<in> Inr ` {k. Inr k \<in> id_key ` set xs}"
        by simp
    qed
  qed
qed

lemma merge_step_snd:
  "snd (merge_step c a b) =
     (case first_fault (c @ a @ b) of
        Some e \<Rightarrow> Inl e
      | None \<Rightarrow> Inr (c @ non_duplicates c a @ non_duplicates (c @ a) b,
                     {k. Inr k \<in> id_key ` set (c @ a @ b)}))"
proof (cases "first_fault c")
  case (Some e)
  then show ?thesis
    by (simp add: merge_step_def id_set_eq py_bind_eval_Inl py_raise_def first_fault_append)
next
  case None
  let ?ids = "{k. Inr k \<in> id_key ` set c}"
  have inv: "Inr ` ?ids = id_key ` set c" using None by (rule keys_inv)
  have m: "merge_step c a b = py_bind (add_benchmarks a (c, ?ids)) (add_benchmarks b)"
    using None by (simp add: merge_step_def id_set_eq py_bind_eval_Inr)
  show ?thesis
  proof (cases "first_fault a")
    case (Some e)
    then show ?thesis
      using None by (simp add: m snd_py_bind add_benchmarks_snd [OF inv] first_fault_append)
  next
    case a: None
    have sa: "snd (add_benchmarks a (c, ?ids)) =
        Inr (c @ non_duplicates c a, ?ids \<union> {k. Inr k \<in> id_key ` set a})"
      using a by (simp add: add_benchmarks_snd [OF inv])
    have ks: "?ids \<union> {k. Inr k \<in> id_key ` set a} = {k. Inr k \<in> id_key ` set (c @ a)}"
      by auto
    have "first_fault (c @ a) = None" using None a by (simp add: first_fault_append)
    then have "Inr ` {k. Inr k \<in> id_key ` set (c @ a)} = id_key ` set (c @ a)"
      by (rule keys_inv)
    then have inv2: "Inr ` {k. Inr k \<in> id_key ` set (c @ a)} = id_key ` set (c @ non_duplicates c a)"
      by (simp only: ids_non_duplicates)
    have nd: "non_duplicates (c @ non_duplicates c a) b = non_duplicates (c @ a) b"
      by (rule non_duplicates_cong) (rule ids_non_duplicates)
    have ks2: "{k. Inr k \<in> id_key ` set (c @ a)} \<union> {k. Inr k \<in> id_key ` set b} =
               {k. Inr k \<in> id_key ` set (c @ a @ b)}"
      by auto
    have sb: "snd (add_benchmarks b (c @ non_duplicates c a, {k. Inr k \<in> id_key ` set (c @ a)})) =
        (case first_fault b of
           Some e \<Rightarrow> Inl e
         | None \<Rightarrow> Inr (c @ non_duplicates c a @ non_duplicates (c @ a) b,
                        {k. Inr k \<in> id_key ` set (c @ a @ b)}))"
      unfolding add_benchmarks_snd [OF inv2] nd ks2 by (cases "first_fault b") simp_all
    have ff: "first_fault (c @ a @ b) = first_fault b"
      using None a by (simp add: first_fault_append)
    have "snd (merge_step c a b) =
          snd (add_benchmarks b (c @ non_duplicates c a, {k. Inr k \<in> id_key ` set (c @ a)}))"
      unfolding m snd_py_bind sa ks by simp
    also note sb
    finally show ?thesis by (simp only: ff)
  qed
qed




lemma merge_step_Inr:
  assumes "snd (merge_step c a b) = Inr (out, ids)"
  shows "first_fault (c @ a @ b) = None"
    and "out = c @ non_duplicates c a @ non_duplicates (c @ a) b"
    and "ids = {k. Inr k \<in> id_key ` set (c @ a @ b)}"
  using assms by (auto simp: merge_step_snd split: option.splits)

lemma in_non_duplicates:
  "x \<in> set (non_duplicates e xs) \<Longrightarrow> x \<in> set xs \<and> id_key x \<notin> id_key ` set e"
proof (induction xs arbitrary: e)
  case Nil
  then show ?case by simp
next
  case (Cons y ys)
  show ?case
  proof (cases "x \<in> set (non_duplicates (e @ [y]) ys)")
    case True
    then have "x \<in> set ys \<and> id_key x \<notin> id_key ` set (e @ [y])" by (rule Cons.IH)
    then show ?thesis by auto
  next
    case False
    then have "x = y \<and> id_key y \<notin> id_key ` set e"
      using Cons.prems by (auto split: if_splits)
    then show ?thesis by simp
  qed
qed

lemma distinct_non_duplicates: "distinct (map id_key (non_duplicates e xs))"
proof (induction xs arbitrary: e)
  case Nil
  show ?case by simp
next
  case (Cons y ys)
  have "id_key y \<notin> id_key ` set (non_duplicates (e @ [y]) ys)"
  proof
    assume "id_key y \<in> id_key ` set (non_duplicates (e @ [y]) ys)"
    then obtain x where x: "x \<in> set (non_duplicates (e @ [y]) ys)" "id_key x = id_key y"
      by (metis imageE)
    have "id_key x \<notin> id_key ` set (e @ [y])"
      using in_non_duplicates [OF x(1)] by blast
    then show False using x(2) by simp
  qed
  then show ?case using Cons.IH [of "e @ [y]"] by simp
qed

lemma records_with_id_empty: "records_with_id k xs = [] \<longleftrightarrow> Inr k \<notin> id_key ` set xs"
  by (auto simp: records_with_id_def filter_empty_conv image_iff)

lemma records_with_id_Nil: "records_with_id k [] = []"
  by (simp add: records_with_id_def)

lemma records_with_id_append:
  "records_with_id k (xs @ ys) = records_with_id k xs @ records_with_id k ys"
  by (simp add: records_with_id_def)

lemma records_with_id_non_duplicates:
  "records_with_id k (non_duplicates e xs) =
     (if Inr k \<in> id_key ` set e then [] else take 1 (records_with_id k xs))"
proof (induction xs arbitrary: e)
  case Nil
  show ?case by (simp add: records_with_id_def)
next
  case (Cons y ys)
  have IH: "records_with_id k (non_duplicates (e @ [y]) ys) =
     (if Inr k \<in> id_key ` set (e @ [y]) then [] else take 1 (records_with_id k ys))"
    by (rule Cons.IH)
  have hd: "records_with_id k (y # zs) =
            (if id_key y = Inr k then y # records_with_id k zs else records_with_id k zs)" for zs
    by (simp add: records_with_id_def)
  show ?case
  proof (cases "id_key y = Inr k")
    case True
    then have tail: "records_with_id k (non_duplicates (e @ [y]) ys) = []"
      using IH by simp
    show ?thesis
    proof (cases "Inr k \<in> id_key ` set e")
      case mem: True
      then have "non_duplicates e (y # ys) = non_duplicates (e @ [y]) ys"
        using True by simp
      then show ?thesis using mem tail by simp
    next
      case nmem: False
      then have "non_duplicates e (y # ys) = y # non_duplicates (e @ [y]) ys"
        using True by simp
      then show ?thesis using nmem tail True by (simp add: hd)
    qed
  next
    case False
    then have mem: "(Inr k \<in> id_key ` set (e @ [y])) = (Inr k \<in> id_key ` set e)"
      by auto
    have "records_with_id k (non_duplicates e (y # ys)) =
          records_with_id k (non_duplicates (e @ [y]) ys)"
      using False by (simp add: records_with_id_append hd records_with_id_Nil)
    then show ?thesis
      unfolding IH mem using False by (simp add: hd)
  qed
qed

lemma length_non_duplicates:
  "length (non_duplicates e xs) = card (id_key ` set xs - id_key ` set e)"
proof (induction xs arbitrary: e)
  case Nil
  show ?case by simp
next
  case (Cons y ys)
  define E where "E = id_key ` set e"
  define Y where "Y = id_key ` set ys"
  define ky where "ky = id_key y"
  have IH: "length (non_duplicates (e @ [y]) ys) = card (Y - insert ky E)"
    using Cons.IH [of "e @ [y]"] by (simp add: E_def Y_def ky_def)
  have goal: "id_key ` set (y # ys) - id_key ` set e = insert ky Y - E"
    by (simp add: E_def Y_def ky_def)
  have fin: "finite (Y - insert ky E)" by (simp add: Y_def)
  show ?case
  proof (cases "ky \<in> E")
    case True
    then have "insert ky Y - E = Y - insert ky E" by blast
    moreover have "non_duplicates e (y # ys) = non_duplicates (e @ [y]) ys"
      using True by (simp add: E_def ky_def)
    ultimately show ?thesis using IH goal by simp
  next
    case False
    then have "insert ky Y - E = insert ky (Y - insert ky E)" by blast
    moreover have "ky \<notin> Y - insert ky E" by blast
    ultimately have "card (insert ky Y - E) = Suc (card (Y - insert ky E))"
      using fin by simp
    moreover have "non_duplicates e (y # ys) = y # non_duplicates (e @ [y]) ys"
      using False by (simp add: E_def ky_def)
    ultimately show ?thesis using IH goal by simp
  qed
qed

section \<open>Loops on a list in two parts\<close>

lemma py_bind_assoc: "py_bind (py_bind m f) g = py_bind m (\<lambda>x. py_bind (f x) g)"
  by (cases m) (auto simp: py_bind_def split: sum.splits prod.splits)

lemma add_benchmarks_append:
  "add_benchmarks (xs @ ys) s = py_bind (add_benchmarks xs s) (add_benchmarks ys)"
proof (induction xs s rule: add_benchmarks.induct)
  case (1 all_benchmarks existing_ids)
  show ?case by (simp add: py_bind_return)
next
  case (2 benchmark rest all_benchmarks existing_ids)
  show ?case
  proof (cases "getitem benchmark ''id''")
    case (Inl e)
    then show ?thesis by (simp add: py_bind_raise)
  next
    case v: (Inr v)
    show ?thesis
    proof (cases "py_key v")
      case (Inl e)
      then show ?thesis using v by (simp add: py_bind_raise)
    next
      case (Inr k)
      then show ?thesis using v 2 by (simp add: py_bind_assoc)
    qed
  qed
qed

lemma add_benchmarks_Nil: "add_benchmarks [] = py_return"
proof (rule ext)
  fix s :: "json list \<times> pykey set"
  show "add_benchmarks [] s = py_return s" by (cases s) simp
qed

lemma py_bind_return_right: "py_bind m py_return = m"
  by (cases m) (auto simp: py_bind_def py_return_def split: sum.splits)

lemma merge_step_prefix:
  "merge_step c (pre @ rest) [] = py_bind (merge_step c pre []) (add_benchmarks rest)"
  by (simp add: merge_step_def add_benchmarks_append py_bind_assoc add_benchmarks_Nil
      py_bind_return py_bind_return_right)

lemma merge_step_prefix1:
  "merge_step c a (pre @ rest) = py_bind (merge_step c a pre) (add_benchmarks rest)"
  by (simp add: merge_step_def add_benchmarks_append py_bind_assoc)

section \<open>The seen set when a record is reached\<close>

lemma non_duplicates_append:
  "non_duplicates e (xs @ ys) = non_duplicates e xs @ non_duplicates (e @ xs) ys"
  by (induction xs arbitrary: e) simp_all

lemma seen_when_reached:
  assumes "snd (merge_step c a pre) = Inr (out, seen)"
  shows "Inr ` seen = id_key ` set (c @ a @ pre)"
proof -
  have "first_fault (c @ a @ pre) = None"
    using assms by (rule merge_step_Inr(1))
  then have "Inr ` {k. Inr k \<in> id_key ` set (c @ a @ pre)} = id_key ` set (c @ a @ pre)"
    by (rule keys_inv)
  then show ?thesis
    using merge_step_Inr(3) [OF assms] by simp
qed

section \<open>Evaluating runs\<close>

lemmas run_defs =
  merge_step_def id_key_def py_bind_def py_eval_def py_return_def py_print_def py_raise_def

lemma ex_run:
  "merge_step ex_current ex_new_bench ex_new_bench1 =
     ([SkippedDuplicate (JInt 1), SkippedDuplicate (JInt 2)],
      Inr ([bench 1 ''x'', bench 2 ''x'', bench 3 ''x''], {KNum 3, KNum 2, KNum 1}))"
  by (simp add: run_defs ex_current_def ex_new_bench_def ex_new_bench1_def bench_def)

section \<open>The merged list\<close>

text \<open>
  Claim C1. Whenever the merge of three collections completes, the merged list is all of
  \<open>current\<close>, in order and unchanged, then the records of \<open>new_bench\<close> whose id was not
  seen before them, in order, then the records of \<open>new_bench1\<close> whose id was not seen
  before them, in order. No record appended from the other two collections equals a
  record of \<open>current\<close>, so a record of \<open>current\<close> occurs in the merged list as many times
  as in \<open>current\<close>: once when \<open>current\<close> holds it once. The last two parts say what
  seen means: the merge on the records in front of a record \<open>x\<close> is the state in which the
  loop reaches \<open>x\<close> (\<open>merge_step_prefix\<close>, \<open>merge_step_prefix1\<close>), and \<open>x\<close> is appended
  exactly when its id is not in the seen set of that state.
\<close>

theorem merge_order:
  assumes "snd (merge_step current new_bench new_bench1) = Inr (out, ids)"
  shows "out = current @ non_duplicates current new_bench
               @ non_duplicates (current @ new_bench) new_bench1
       \<and> take (length current) out = current
       \<and> (\<forall>r\<in>set current. count_list out r = count_list current r)
       \<and> (\<forall>pre x post out' seen.
            new_bench = pre @ x # post \<and> snd (merge_step current pre []) = Inr (out', seen) \<longrightarrow>
            non_duplicates current new_bench =
              non_duplicates current pre @ (if id_key x \<in> Inr ` seen then [] else [x])
              @ non_duplicates (current @ pre @ [x]) post)
       \<and> (\<forall>pre x post out' seen.
            new_bench1 = pre @ x # post
            \<and> snd (merge_step current new_bench pre) = Inr (out', seen) \<longrightarrow>
            non_duplicates (current @ new_bench) new_bench1 =
              non_duplicates (current @ new_bench) pre
              @ (if id_key x \<in> Inr ` seen then [] else [x])
              @ non_duplicates (current @ new_bench @ pre @ [x]) post)"
proof -
  have out: "out = current @ non_duplicates current new_bench
               @ non_duplicates (current @ new_bench) new_bench1"
    using assms by (rule merge_step_Inr(2))
  have "count_list (non_duplicates current new_bench) r = 0" if "r \<in> set current" for r
    using that in_non_duplicates [of r current new_bench] by (auto simp: count_list_0_iff)
  moreover have "count_list (non_duplicates (current @ new_bench) new_bench1) r = 0"
    if "r \<in> set current" for r
    using that in_non_duplicates [of r "current @ new_bench" new_bench1]
    by (auto simp: count_list_0_iff)
  ultimately have cnt: "\<forall>r\<in>set current. count_list out r = count_list current r"
    by (simp add: out)
  have turn: "non_duplicates e (pre @ x # post) =
              non_duplicates e pre @ (if id_key x \<in> Inr ` seen then [] else [x])
              @ non_duplicates (e @ pre @ [x]) post"
    if "Inr ` seen = id_key ` set (e @ pre)" for e pre x post seen
    using that by (simp add: non_duplicates_append)
  have a: "\<forall>pre x post out' seen.
            new_bench = pre @ x # post \<and> snd (merge_step current pre []) = Inr (out', seen) \<longrightarrow>
            non_duplicates current new_bench =
              non_duplicates current pre @ (if id_key x \<in> Inr ` seen then [] else [x])
              @ non_duplicates (current @ pre @ [x]) post"
  proof (intro allI impI, elim conjE)
    fix pre x post out' seen
    assume nb: "new_bench = pre @ x # post"
      and st: "snd (merge_step current pre []) = Inr (out', seen)"
    have "Inr ` seen = id_key ` set (current @ pre)"
      using seen_when_reached [OF st] by simp
    then show "non_duplicates current new_bench =
              non_duplicates current pre @ (if id_key x \<in> Inr ` seen then [] else [x])
              @ non_duplicates (current @ pre @ [x]) post"
      unfolding nb by (rule turn)
  qed
  have b: "\<forall>pre x post out' seen.
            new_bench1 = pre @ x # post
            \<and> snd (merge_step current new_bench pre) = Inr (out', seen) \<longrightarrow>
            non_duplicates (current @ new_bench) new_bench1 =
              non_duplicates (current @ new_bench) pre
              @ (if id_key x \<in> Inr ` seen then [] else [x])
              @ non_duplicates (current @ new_bench @ pre @ [x]) post"
  proof (intro allI impI, elim conjE)
    fix pre x post out' seen
    assume nb: "new_bench1 = pre @ x # post"
      and st: "snd (merge_step current new_bench pre) = Inr (out', seen)"
    have "Inr ` seen = id_key ` set ((current @ new_bench) @ pre)"
      using seen_when_reached [OF st] by simp
    then have "non_duplicates (current @ new_bench) (pre @ x # post) =
              non_duplicates (current @ new_bench) pre
              @ (if id_key x \<in> Inr ` seen then [] else [x])
              @ non_duplicates ((current @ new_bench) @ pre @ [x]) post"
      by (rule turn)
    then show "non_duplicates (current @ new_bench) new_bench1 =
              non_duplicates (current @ new_bench) pre
              @ (if id_key x \<in> Inr ` seen then [] else [x])
              @ non_duplicates (current @ new_bench @ pre @ [x]) post"
      unfolding nb by simp
  qed
  show ?thesis using out cnt a b by simp
qed

theorem merge_order_witness:
  "snd (merge_step ex_current ex_new_bench ex_new_bench1) =
     Inr ([bench 1 ''x'', bench 2 ''x'', bench 3 ''x''], {KNum 3, KNum 2, KNum 1})
   \<and> [bench 1 ''x'', bench 2 ''x'', bench 3 ''x''] =
       ex_current @ non_duplicates ex_current ex_new_bench
         @ non_duplicates (ex_current @ ex_new_bench) ex_new_bench1
   \<and> count_list [bench 1 ''x'', bench 2 ''x'', bench 3 ''x''] (bench 1 ''x'') = 1"
proof -
  have run: "snd (merge_step ex_current ex_new_bench ex_new_bench1) =
     Inr ([bench 1 ''x'', bench 2 ''x'', bench 3 ''x''], {KNum 3, KNum 2, KNum 1})"
    by (simp add: ex_run)
  have "bench 1 ''x'' \<in> set ex_current" by (simp add: ex_current_def)
  then have "count_list [bench 1 ''x'', bench 2 ''x'', bench 3 ''x''] (bench 1 ''x'') =
             count_list ex_current (bench 1 ''x'')"
    using merge_order [OF run] by blast
  then show ?thesis
    using run merge_order [OF run] by (simp add: ex_current_def)
qed

lemma ex_nd1: "non_duplicates ex_current ex_new_bench = [bench 2 ''x'']"
  by (simp add: id_key_def ex_current_def ex_new_bench_def bench_def)

lemma ex_nd2: "non_duplicates (ex_current @ ex_new_bench) ex_new_bench1 = [bench 3 ''x'']"
  by (simp add: id_key_def ex_current_def ex_new_bench_def ex_new_bench1_def bench_def)

section \<open>The size of the merged list\<close>

text \<open>
  Claim C3. Whenever the merge completes, the length of the merged list is the length of
  \<open>current\<close> plus the number of records appended from \<open>new_bench\<close> plus the number of
  records appended from \<open>new_bench1\<close>; the records appended from a collection are as many
  as the distinct ids of that collection that no collection before it holds.
\<close>

theorem merge_count:
  assumes "snd (merge_step current new_bench new_bench1) = Inr (out, ids)"
  shows "length out = length current + length (non_duplicates current new_bench)
                      + length (non_duplicates (current @ new_bench) new_bench1)
       \<and> length (non_duplicates current new_bench) =
           card (id_key ` set new_bench - id_key ` set current)
       \<and> length (non_duplicates (current @ new_bench) new_bench1) =
           card (id_key ` set new_bench1 - id_key ` set (current @ new_bench))"
  using merge_step_Inr(2) [OF assms] by (simp add: length_non_duplicates)

theorem merge_count_witness:
  "snd (merge_step ex_current ex_new_bench ex_new_bench1) =
     Inr ([bench 1 ''x'', bench 2 ''x'', bench 3 ''x''], {KNum 3, KNum 2, KNum 1})
   \<and> length [bench 1 ''x'', bench 2 ''x'', bench 3 ''x''] = length ex_current + 1 + 1
   \<and> card (id_key ` set ex_new_bench - id_key ` set ex_current) = 1
   \<and> card (id_key ` set ex_new_bench1 - id_key ` set (ex_current @ ex_new_bench)) = 1"
proof -
  have run: "snd (merge_step ex_current ex_new_bench ex_new_bench1) =
     Inr ([bench 1 ''x'', bench 2 ''x'', bench 3 ''x''], {KNum 3, KNum 2, KNum 1})"
    by (simp add: ex_run)
  show ?thesis
    using run merge_count [OF run] by (simp add: ex_nd1 ex_nd2)
qed

section \<open>The seen set and the ids of the merged list\<close>

lemma ids_disjoint_non_duplicates:
  "id_key ` set (non_duplicates e xs) \<inter> id_key ` set e = {}"
  using in_non_duplicates [of _ e xs] by auto

text \<open>
  Claim C9. Whenever the merge completes, the seen set holds exactly the ids of the merged
  list, the records appended to \<open>current\<close> have pairwise distinct ids that are ids of no
  record of \<open>current\<close>, and the ids of the merged list are pairwise distinct when those of
  \<open>current\<close> are. The state of the merge after any number of appends is the result of the
  merge on the records read so far (\<open>merge_step_prefix\<close>, \<open>merge_step_prefix1\<close>), so the
  same holds after each append.
\<close>

theorem ids_distinct:
  assumes "snd (merge_step current new_bench new_bench1) = Inr (out, ids)"
  shows "Inr ` ids = id_key ` set out
       \<and> (distinct (map id_key current) \<longrightarrow> distinct (map id_key out))
       \<and> distinct (map id_key (drop (length current) out))
       \<and> id_key ` set (drop (length current) out) \<inter> id_key ` set current = {}"
proof -
  let ?A = "non_duplicates current new_bench"
  let ?B = "non_duplicates (current @ new_bench) new_bench1"
  have out: "out = current @ ?A @ ?B"
    using assms by (rule merge_step_Inr(2))
  have ff: "first_fault (current @ new_bench @ new_bench1) = None"
    using assms by (rule merge_step_Inr(1))
  have ids: "ids = {k. Inr k \<in> id_key ` set (current @ new_bench @ new_bench1)}"
    using assms by (rule merge_step_Inr(3))
  have kA: "id_key ` set (current @ ?A) = id_key ` set (current @ new_bench)"
    by (rule ids_non_duplicates)
  have kB: "id_key ` set ((current @ new_bench) @ ?B) = id_key ` set ((current @ new_bench) @ new_bench1)"
    by (rule ids_non_duplicates)
  have "id_key ` set out = id_key ` set (current @ ?A) \<union> id_key ` set ?B"
    by (simp add: out image_Un Un_assoc)
  also have "\<dots> = id_key ` set (current @ new_bench) \<union> id_key ` set ?B"
    by (simp only: kA)
  also have "\<dots> = id_key ` set ((current @ new_bench) @ ?B)"
    by (simp add: image_Un Un_assoc)
  also have "\<dots> = id_key ` set (current @ new_bench @ new_bench1)"
    using kB by (simp only: append_assoc)
  finally have kout: "id_key ` set out = id_key ` set (current @ new_bench @ new_bench1)" .
  have inv: "Inr ` ids = id_key ` set out"
    unfolding ids kout using ff by (rule keys_inv)
  have dA: "distinct (map id_key ?A)" and dB: "distinct (map id_key ?B)"
    by (rule distinct_non_duplicates)+
  have xA: "id_key ` set ?A \<inter> id_key ` set current = {}"
    by (rule ids_disjoint_non_duplicates)
  have xB: "id_key ` set ?B \<inter> id_key ` set (current @ new_bench) = {}"
    by (rule ids_disjoint_non_duplicates)
  have xB': "id_key ` set ?B \<inter> id_key ` set (current @ ?A) = {}"
    using xB by (simp only: kA)
  then have xBc: "id_key ` set ?B \<inter> id_key ` set current = {}"
    and xBA: "id_key ` set ?A \<inter> id_key ` set ?B = {}"
    by (auto simp: image_Un)
  have rest: "drop (length current) out = ?A @ ?B" by (simp add: out)
  have drest: "distinct (map id_key (?A @ ?B))"
    using dA dB xBA by simp
  have xrest: "id_key ` set (?A @ ?B) \<inter> id_key ` set current = {}"
    using xA xBc by (auto simp: image_Un)
  have "distinct (map id_key current) \<Longrightarrow> distinct (map id_key out)"
  proof -
    assume "distinct (map id_key current)"
    moreover have "set (map id_key current) \<inter> set (map id_key (?A @ ?B)) = {}"
      using xrest by auto
    ultimately have "distinct (map id_key current @ map id_key (?A @ ?B))"
      using drest by (simp only: distinct_append)
    then show ?thesis by (simp add: out)
  qed
  then show ?thesis using inv drest xrest rest by simp
qed

theorem ids_distinct_witness:
  "snd (merge_step ex_current ex_new_bench ex_new_bench1) =
     Inr ([bench 1 ''x'', bench 2 ''x'', bench 3 ''x''], {KNum 3, KNum 2, KNum 1})
   \<and> distinct (map id_key ex_current)
   \<and> distinct (map id_key [bench 1 ''x'', bench 2 ''x'', bench 3 ''x''])
   \<and> Inr ` {KNum 3, KNum 2, KNum 1} = id_key ` set [bench 1 ''x'', bench 2 ''x'', bench 3 ''x'']"
proof -
  have run: "snd (merge_step ex_current ex_new_bench ex_new_bench1) =
     Inr ([bench 1 ''x'', bench 2 ''x'', bench 3 ''x''], {KNum 3, KNum 2, KNum 1})"
    by (simp add: ex_run)
  have d: "distinct (map id_key ex_current)" by (simp add: ex_current_def)
  show ?thesis
    using run d ids_distinct [OF run] by blast
qed

section \<open>Which copy of an id survives\<close>

text \<open>
  Claim C2, as amended. Whenever the merge completes and \<open>k\<close> is an id: if \<open>current\<close> holds
  records with id \<open>k\<close>, the records with that id in the merged list are exactly those of
  \<open>current\<close>; otherwise, if \<open>new_bench\<close> holds the id, exactly one record with the id is in
  the merged list, the first one of \<open>new_bench\<close>; otherwise, if \<open>new_bench1\<close> holds it,
  exactly one, the first one of \<open>new_bench1\<close>. So an id that \<open>current\<close> holds at most once
  and that occurs at all survives in exactly one record, from the collection of highest
  precedence that holds it.
\<close>

theorem dedup_by_precedence:
  assumes "snd (merge_step current new_bench new_bench1) = Inr (out, ids)"
  shows "(records_with_id k current \<noteq> [] \<longrightarrow>
            records_with_id k out = records_with_id k current)
       \<and> (records_with_id k current = [] \<and> records_with_id k new_bench \<noteq> [] \<longrightarrow>
            records_with_id k out = [hd (records_with_id k new_bench)])
       \<and> (records_with_id k current = [] \<and> records_with_id k new_bench = []
            \<and> records_with_id k new_bench1 \<noteq> [] \<longrightarrow>
            records_with_id k out = [hd (records_with_id k new_bench1)])
       \<and> (length (records_with_id k current) \<le> 1 \<and>
            records_with_id k (current @ new_bench @ new_bench1) \<noteq> [] \<longrightarrow>
            length (records_with_id k out) = 1)"
proof -
  have out: "out = current @ non_duplicates current new_bench
               @ non_duplicates (current @ new_bench) new_bench1"
    using assms by (rule merge_step_Inr(2))
  have t1: "take (Suc 0) xs = [hd xs]" if "xs \<noteq> []" for xs :: "json list"
    using that by (cases xs) simp_all
  have split: "records_with_id k out =
      records_with_id k current
      @ (if records_with_id k current \<noteq> [] then [] else take 1 (records_with_id k new_bench))
      @ (if records_with_id k (current @ new_bench) \<noteq> [] then []
         else take 1 (records_with_id k new_bench1))"
    unfolding out records_with_id_append records_with_id_non_duplicates
    by (auto simp: records_with_id_empty records_with_id_append)
  have c1: "records_with_id k current \<noteq> [] \<longrightarrow>
            records_with_id k out = records_with_id k current"
    using split by (simp add: records_with_id_append)
  have c2: "records_with_id k current = [] \<and> records_with_id k new_bench \<noteq> [] \<longrightarrow>
            records_with_id k out = [hd (records_with_id k new_bench)]"
    using split by (simp add: records_with_id_append t1)
  have c3: "records_with_id k current = [] \<and> records_with_id k new_bench = []
            \<and> records_with_id k new_bench1 \<noteq> [] \<longrightarrow>
            records_with_id k out = [hd (records_with_id k new_bench1)]"
    using split by (simp add: records_with_id_append t1)
  have c4: "length (records_with_id k current) \<le> 1 \<and>
            records_with_id k (current @ new_bench @ new_bench1) \<noteq> [] \<longrightarrow>
            length (records_with_id k out) = 1"
  proof (cases "records_with_id k current = []")
    case True
    then show ?thesis using c2 c3 by (auto simp: records_with_id_append)
  next
    case False
    then have "length (records_with_id k current) \<le> 1 \<longrightarrow> length (records_with_id k current) = 1"
      by (cases "records_with_id k current") simp_all
    then show ?thesis using c1 False by simp
  qed
  show ?thesis using c1 c2 c3 c4 by blast
qed

theorem dedup_by_precedence_witness:
  "snd (merge_step ex_current ex_new_bench ex_new_bench1) =
     Inr ([bench 1 ''x'', bench 2 ''x'', bench 3 ''x''], {KNum 3, KNum 2, KNum 1})
   \<and> records_with_id (KNum 1) ex_current \<noteq> []
   \<and> records_with_id (KNum 1) ex_new_bench \<noteq> []
   \<and> records_with_id (KNum 1) [bench 1 ''x'', bench 2 ''x'', bench 3 ''x''] = [bench 1 ''x'']
   \<and> records_with_id (KNum 2) ex_current = []
   \<and> records_with_id (KNum 2) ex_new_bench \<noteq> []
   \<and> records_with_id (KNum 2) [bench 1 ''x'', bench 2 ''x'', bench 3 ''x''] = [bench 2 ''x'']"
proof -
  have run: "snd (merge_step ex_current ex_new_bench ex_new_bench1) =
     Inr ([bench 1 ''x'', bench 2 ''x'', bench 3 ''x''], {KNum 3, KNum 2, KNum 1})"
    by (simp add: ex_run)
  have h1: "records_with_id (KNum 1) ex_current \<noteq> []"
    and h1': "records_with_id (KNum 1) ex_new_bench \<noteq> []"
    and h2: "records_with_id (KNum 2) ex_current = []"
    and h2': "records_with_id (KNum 2) ex_new_bench \<noteq> []"
    by (simp_all add: records_with_id_def ex_current_def ex_new_bench_def bench_def id_key_def)
  have "records_with_id (KNum 1) [bench 1 ''x'', bench 2 ''x'', bench 3 ''x''] =
        records_with_id (KNum 1) ex_current"
    using dedup_by_precedence [OF run, of "KNum 1"] h1 by blast
  moreover have "records_with_id (KNum 2) [bench 1 ''x'', bench 2 ''x'', bench 3 ''x''] =
        [hd (records_with_id (KNum 2) ex_new_bench)]"
    using dedup_by_precedence [OF run, of "KNum 2"] h2 h2' by blast
  ultimately show ?thesis
    using run h1 h1' h2 h2'
    by (simp add: records_with_id_def ex_current_def ex_new_bench_def bench_def id_key_def)
qed

text \<open>
  The claim as stated fails when \<open>current\<close> itself holds an id twice: the id 1 is in
  \<open>current\<close> and in \<open>new_bench\<close>, and two records with it are in the merged list.
\<close>

theorem dedup_counterexample:
  "snd (merge_step [bench 1 ''x'', bench 1 ''y''] [bench 1 ''z''] []) =
     Inr ([bench 1 ''x'', bench 1 ''y''], {KNum 1})
   \<and> records_with_id (KNum 1) [bench 1 ''x'', bench 1 ''y''] \<noteq> []
   \<and> records_with_id (KNum 1) [bench 1 ''z''] \<noteq> []
   \<and> length (records_with_id (KNum 1) [bench 1 ''x'', bench 1 ''y'']) = 2"
  by (simp add: run_defs records_with_id_def bench_def)

section \<open>Records of one collection that share an id\<close>

lemma records_with_id_distinct:
  "distinct (map id_key xs) \<Longrightarrow> length (records_with_id k xs) \<le> 1"
proof (induction xs)
  case Nil
  show ?case by (simp add: records_with_id_def)
next
  case (Cons x xs)
  show ?case
  proof (cases "id_key x = Inr k")
    case True
    then have "Inr k \<notin> id_key ` set xs" using Cons.prems by auto
    then have "records_with_id k xs = []" by (simp add: records_with_id_empty)
    then show ?thesis using True by (simp add: records_with_id_def)
  next
    case False
    then show ?thesis using Cons by (simp add: records_with_id_def)
  qed
qed

lemma distinct_appended:
  "distinct (map id_key (non_duplicates c a @ non_duplicates (c @ a) b))"
proof -
  have "id_key ` set (non_duplicates (c @ a) b) \<inter> id_key ` set (c @ a) = {}"
    by (rule ids_disjoint_non_duplicates)
  then have "id_key ` set (non_duplicates (c @ a) b) \<inter> id_key ` set (c @ non_duplicates c a) = {}"
    by (simp only: ids_non_duplicates)
  then have "id_key ` set (non_duplicates c a) \<inter> id_key ` set (non_duplicates (c @ a) b) = {}"
    by (auto simp: image_Un)
  then show ?thesis
    using distinct_non_duplicates [of c a] distinct_non_duplicates [of "c @ a" b] by simp
qed

text \<open>
  Claim C4, as amended. Whenever the merge completes, \<open>current\<close> is kept whole, so
  records of \<open>current\<close> that share an id are all in the merged list. Within
  \<open>new_bench\<close> and within \<open>new_bench1\<close> a record whose id is the id of an earlier record of
  the same collection is skipped like any other duplicate: of the records appended from
  each of the two, and from both together, at most one carries a given id.
\<close>

theorem same_collection_duplicates:
  assumes "snd (merge_step current new_bench new_bench1) = Inr (out, ids)"
  shows "take (length current) out = current
       \<and> length (records_with_id k (non_duplicates current new_bench)) \<le> 1
       \<and> length (records_with_id k (non_duplicates (current @ new_bench) new_bench1)) \<le> 1
       \<and> length (records_with_id k (drop (length current) out)) \<le> 1"
proof -
  have out: "out = current @ non_duplicates current new_bench
               @ non_duplicates (current @ new_bench) new_bench1"
    using assms by (rule merge_step_Inr(2))
  have "length (records_with_id k (non_duplicates current new_bench
               @ non_duplicates (current @ new_bench) new_bench1)) \<le> 1"
    using distinct_appended by (rule records_with_id_distinct)
  moreover have "length (records_with_id k (non_duplicates current new_bench)) \<le> 1"
    using distinct_non_duplicates by (rule records_with_id_distinct)
  moreover have "length (records_with_id k (non_duplicates (current @ new_bench) new_bench1)) \<le> 1"
    using distinct_non_duplicates by (rule records_with_id_distinct)
  ultimately show ?thesis by (simp add: out)
qed

theorem same_collection_duplicates_witness:
  "snd (merge_step [bench 1 ''x'', bench 1 ''y''] [bench 2 ''x'', bench 2 ''y''] []) =
     Inr ([bench 1 ''x'', bench 1 ''y'', bench 2 ''x''], {KNum 2, KNum 1})
   \<and> take (length [bench 1 ''x'', bench 1 ''y''])
        [bench 1 ''x'', bench 1 ''y'', bench 2 ''x''] = [bench 1 ''x'', bench 1 ''y'']
   \<and> length (records_with_id (KNum 2)
        (drop (length [bench 1 ''x'', bench 1 ''y''])
           [bench 1 ''x'', bench 1 ''y'', bench 2 ''x''])) \<le> 1"
proof -
  have run: "snd (merge_step [bench 1 ''x'', bench 1 ''y''] [bench 2 ''x'', bench 2 ''y''] []) =
     Inr ([bench 1 ''x'', bench 1 ''y'', bench 2 ''x''], {KNum 2, KNum 1})"
    by (simp add: run_defs bench_def)
  show ?thesis
    using run same_collection_duplicates [OF run, of "KNum 2"] by blast
qed

text \<open>
  The claim as stated fails inside \<open>new_bench\<close>: of two records with the id 2 only the
  first is in the merged list.
\<close>

theorem same_collection_duplicates_counterexample:
  "snd (merge_step [] [bench 2 ''x'', bench 2 ''y''] []) = Inr ([bench 2 ''x''], {KNum 2})
   \<and> id_key (bench 2 ''x'') = id_key (bench 2 ''y'')
   \<and> bench 2 ''y'' \<notin> set [bench 2 ''x'']"
  by (simp add: run_defs bench_def)

section \<open>Records whose id cannot be used\<close>




lemma snd_merge_benchmarks:
  "snd (merge_benchmarks w) =
     (case snd (load_all w) of
        Inl e \<Rightarrow> Inl e
      | Inr (c, a, b) \<Rightarrow>
          (case snd (merge_step c a b) of
             Inl e \<Rightarrow> Inl e
           | Inr (all, ids) \<Rightarrow> snd (report_and_save w all)))"
  by (simp add: merge_benchmarks_def snd_py_bind split: sum.splits prod.splits)

lemma has_hashable_id_iff:
  "has_hashable_id x \<longleftrightarrow>
     (\<exists>kvs v. x = JObject kvs \<and> map_of kvs ''id'' = Some v
        \<and> (\<forall>ys. v \<noteq> JArray ys) \<and> (\<forall>kvs'. v \<noteq> JObject kvs'))"
proof (cases x)
  case (JObject kvs)
  show ?thesis
  proof (cases "map_of kvs ''id''")
    case None
    then show ?thesis using JObject by (simp add: has_hashable_id_def id_key_def)
  next
    case (Some v)
    then show ?thesis using JObject
      by (cases v rule: py_key.cases) (simp_all add: has_hashable_id_def id_key_def)
  qed
qed (simp_all add: has_hashable_id_def id_key_def)







section \<open>The loader never raises\<close>




section \<open>The category tally of a merged list\<close>

lemma categories_get_set:
  "py_key cat = Inr k \<Longrightarrow>
   categories_get (categories_set categories cat k n) k' d =
     (if k' = k then n else categories_get categories k' d)"
  by (induction categories cat k n rule: categories_set.induct) auto

lemma sum_categories_set:
  "sum_list (map snd (categories_set categories cat k (categories_get categories k 0 + 1))) =
   sum_list (map snd categories) + 1"
proof (induction categories)
  case Nil
  show ?case by simp
next
  case (Cons item items)
  then show ?case by (cases item) simp
qed

lemma in_category_dict_get:
  "dict_get b ''category'' (JStr ''unknown'') = Inr cat \<Longrightarrow>
   in_category k b \<longleftrightarrow> py_key cat = Inr k"
  by (cases b) (auto simp: in_category_def split: option.splits)

lemma count_categories_acc:
  "count_categories xs categories = Inr tally \<Longrightarrow>
   categories_get tally k 0 = categories_get categories k 0 + length (filter (in_category k) xs)
   \<and> sum_list (map snd tally) = sum_list (map snd categories) + length xs"
proof (induction xs arbitrary: categories)
  case Nil
  then show ?case by simp
next
  case (Cons b rest)
  from Cons.prems obtain cat where cat: "dict_get b ''category'' (JStr ''unknown'') = Inr cat"
    by (auto split: sum.splits)
  from Cons.prems cat obtain k' where k': "py_key cat = Inr k'"
    by (auto split: sum.splits)
  let ?next = "categories_set categories cat k' (categories_get categories k' 0 + 1)"
  have step: "count_categories rest ?next = Inr tally"
    using Cons.prems cat k' by simp
  have IH: "categories_get tally k 0 = categories_get ?next k 0 + length (filter (in_category k) rest)
   \<and> sum_list (map snd tally) = sum_list (map snd ?next) + length rest"
    using step by (rule Cons.IH)
  have g: "categories_get ?next k 0 =
           (if k = k' then categories_get categories k' 0 + 1 else categories_get categories k 0)"
    using k' by (rule categories_get_set)
  have c: "in_category k b \<longleftrightarrow> k = k'"
    using in_category_dict_get [OF cat, of k] k' by auto
  show ?case
    using IH g c sum_categories_set [of categories cat k'] by simp
qed

lemma count_categories_completes:
  "(\<exists>tally. count_categories xs categories = Inr tally) \<longleftrightarrow>
   (\<forall>b\<in>set xs. \<exists>k. category_key b = Inr k)"
proof (induction xs arbitrary: categories)
  case Nil
  show ?case by simp
next
  case (Cons b rest)
  show ?case
  proof (cases "category_key b")
    case (Inl e)
    then show ?thesis by (auto simp: category_key_def split: sum.splits)
  next
    case (Inr k)
    then obtain cat where "dict_get b ''category'' (JStr ''unknown'') = Inr cat" "py_key cat = Inr k"
      by (auto simp: category_key_def split: sum.splits)
    then show ?thesis using Inr Cons.IH by simp
  qed
qed

lemma categories_set_keys:
  "py_key cat = Inr k \<Longrightarrow>
   map (\<lambda>item. py_key (fst item)) (categories_set categories cat k n) =
     (if Inr k \<in> (\<lambda>item. py_key (fst item)) ` set categories
      then map (\<lambda>item. py_key (fst item)) categories
      else map (\<lambda>item. py_key (fst item)) categories @ [Inr k])"
  by (induction categories cat k n rule: categories_set.induct) auto

lemma categories_set_counts:
  "item \<in> set (categories_set categories cat k n) \<Longrightarrow> item \<in> set categories \<or> snd item = n"
  by (induction categories cat k n rule: categories_set.induct) (auto split: if_splits)

lemma count_categories_dict:
  "count_categories xs categories = Inr tally \<Longrightarrow>
   distinct (map (\<lambda>item. py_key (fst item)) categories) \<Longrightarrow>
   \<forall>item\<in>set categories. 0 < snd item \<Longrightarrow>
   distinct (map (\<lambda>item. py_key (fst item)) tally) \<and> (\<forall>item\<in>set tally. 0 < snd item)"
proof (induction xs arbitrary: categories)
  case Nil
  then show ?case by simp
next
  case (Cons b rest)
  from Cons.prems(1) obtain cat where cat: "dict_get b ''category'' (JStr ''unknown'') = Inr cat"
    by (auto split: sum.splits)
  from Cons.prems(1) cat obtain k where k: "py_key cat = Inr k"
    by (auto split: sum.splits)
  let ?next = "categories_set categories cat k (categories_get categories k 0 + 1)"
  have step: "count_categories rest ?next = Inr tally"
    using Cons.prems(1) cat k by simp
  have d: "distinct (map (\<lambda>item. py_key (fst item)) ?next)"
    using Cons.prems(2) by (simp add: categories_set_keys [OF k])
  have p: "\<forall>item\<in>set ?next. 0 < snd item"
    using Cons.prems(3) categories_set_counts [of _ categories cat k] by fastforce
  show ?case using step d p by (rule Cons.IH)
qed

text \<open>
  Claim C7. Whenever the tally loop completes on a merged list, the count it holds for a
  category is the number of records of the list in that category, where a record with no
  category field counts for the string \<^verbatim>\<open>unknown\<close>; a category that no record is in has no
  item and reads as 0. The items of the tally have distinct keys and positive counts, and
  the counts add up to the length of the list. The loop completes exactly when every
  record is an object whose category can be hashed (\<open>count_categories_completes\<close>).
\<close>

theorem category_tally:
  assumes "count_categories all_benchmarks [] = Inr categories"
  shows "(\<forall>k. categories_get categories k 0 = length (filter (in_category k) all_benchmarks))
       \<and> categories_get categories (KStr ''unknown'') 0 =
           length (filter (\<lambda>b. getitem b ''category'' = Inl (KeyError ''category'')
                              \<or> getitem b ''category'' = Inr (JStr ''unknown'')) all_benchmarks)
       \<and> sum_list (map snd categories) = length all_benchmarks
       \<and> distinct (map (\<lambda>item. py_key (fst item)) categories)
       \<and> (\<forall>item\<in>set categories. 0 < snd item)"
proof -
  have dict: "distinct (map (\<lambda>item. py_key (fst item)) categories)
              \<and> (\<forall>item\<in>set categories. 0 < snd item)"
    using count_categories_dict [OF assms] by simp
  have acc: "categories_get categories k 0 = length (filter (in_category k) all_benchmarks)
             \<and> sum_list (map snd categories) = length all_benchmarks" for k
    using count_categories_acc [OF assms, of k] by simp
  have obj: "\<exists>kvs. b = JObject kvs" if "b \<in> set all_benchmarks" for b
  proof -
    have "\<exists>k. category_key b = Inr k"
      using assms that count_categories_completes [of all_benchmarks "[]"] by blast
    then show ?thesis by (cases b) (auto simp: category_key_def)
  qed
  have unk: "in_category (KStr ''unknown'') b \<longleftrightarrow>
             (getitem b ''category'' = Inl (KeyError ''category'')
              \<or> getitem b ''category'' = Inr (JStr ''unknown''))"
    if mem: "b \<in> set all_benchmarks" for b
  proof -
    obtain kvs where b: "b = JObject kvs" using obj [OF mem] by blast
    show ?thesis
    proof (cases "map_of kvs ''category''")
      case None
      then show ?thesis using b by (simp add: in_category_def)
    next
      case (Some v)
      then show ?thesis using b
        by (cases v rule: py_key.cases) (auto simp: in_category_def)
    qed
  qed
  have "filter (in_category (KStr ''unknown'')) all_benchmarks =
        filter (\<lambda>b. getitem b ''category'' = Inl (KeyError ''category'')
                     \<or> getitem b ''category'' = Inr (JStr ''unknown'')) all_benchmarks"
    by (rule filter_cong) (simp_all add: unk)
  then show ?thesis using acc dict by metis
qed

theorem category_tally_witness:
  "count_categories [bench 1 ''x'', JObject [(''id'', JInt 5)], bench 3 ''x''] [] =
     Inr [(JStr ''x'', 2), (JStr ''unknown'', 1)]
   \<and> categories_get [(JStr ''x'', 2), (JStr ''unknown'', 1)] (KStr ''x'') 0 =
       length (filter (in_category (KStr ''x''))
                 [bench 1 ''x'', JObject [(''id'', JInt 5)], bench 3 ''x''])
   \<and> categories_get [(JStr ''x'', 2), (JStr ''unknown'', 1)] (KStr ''unknown'') 0 = 1
   \<and> sum_list (map snd [(JStr ''x'', 2), (JStr ''unknown'', 1)]) =
       length [bench 1 ''x'', JObject [(''id'', JInt 5)], bench 3 ''x'']"
proof -
  have run: "count_categories [bench 1 ''x'', JObject [(''id'', JInt 5)], bench 3 ''x''] [] =
     Inr [(JStr ''x'', 2), (JStr ''unknown'', 1)]"
    by (simp add: bench_def)
  have t: "categories_get [(JStr ''x'', 2), (JStr ''unknown'', 1)] (KStr ''x'') 0 =
       length (filter (in_category (KStr ''x''))
                 [bench 1 ''x'', JObject [(''id'', JInt 5)], bench 3 ''x''])"
    using category_tally [OF run] by blast
  have u: "categories_get [(JStr ''x'', 2), (JStr ''unknown'', 1)] (KStr ''unknown'') 0 = 1"
    by simp
  have s: "sum_list (map snd [(JStr ''x'', 2), (JStr ''unknown'', 1)]) =
       length [bench 1 ''x'', JObject [(''id'', JInt 5)], bench 3 ''x'']"
    by simp
  show ?thesis
    using run t u s by blast
qed

section \<open>The skipped-duplicate lines of a run\<close>















section \<open>Runs on the same loaded collections\<close>




lemma snd_load_all:
  "snd (load_json_file w ''data/benchmarks.json'') = Inr d1 \<Longrightarrow>
   snd (load_json_file w ''data/new_bench.json'') = Inr d2 \<Longrightarrow>
   snd (load_json_file w ''data/new_bench1.json'') = Inr d3 \<Longrightarrow>
   snd (load_all w) = snd (report_loaded d1 d2 d3)"
  by (simp add: load_all_def snd_py_bind)







lemma snd_report_and_save:
  "snd (report_and_save w all) = Inr out \<Longrightarrow>
   out = all \<and> (\<exists>categories. count_categories all [] = Inr categories)"
  by (auto simp: report_and_save_def snd_py_bind py_print_def py_eval_def py_return_def
      split: sum.splits)

lemma run_values:
  assumes "snd (merge_benchmarks w) = Inr out"
  shows "run_merged w = Inr out \<and> (\<exists>categories. run_tally w = Inr categories)"
proof -
  from assms obtain c a b where l: "snd (load_all w) = Inr (c, a, b)"
    by (auto simp: snd_merge_benchmarks split: sum.splits)
  from assms l obtain all ids where m: "snd (merge_step c a b) = Inr (all, ids)"
    by (auto simp: snd_merge_benchmarks split: sum.splits)
  from assms l m have "snd (report_and_save w all) = Inr out"
    by (simp add: snd_merge_benchmarks)
  then have "out = all \<and> (\<exists>categories. count_categories all [] = Inr categories)"
    by (rule snd_report_and_save)
  then show ?thesis using l m by (auto simp: run_merged_def run_tally_def)
qed



end
